theory Spec2Isabelle
  imports Complex_Main "HOL-Library.Product_Lexorder" "HOL-Library.AList"
begin

section \<open>Errors\<close>

text \<open>The exceptions of the modelled code: a raising call returns \<open>Inl\<close> of one of them.\<close>

datatype py_error =
  TypeError | ValueError | OverflowError | IllegalMonthError | OSError | UnpicklingError

section \<open>Data model\<close>

subsection \<open>Timestamps\<close>

text \<open>
  A naive \<^verbatim>\<open>datetime\<close> of the Python standard library: seven integer fields. The
  library keeps them in the ranges checked by \<open>valid_datetime\<close> below; the record itself
  does not, so every operation that builds a timestamp checks the result as the library does.
\<close>

record datetime =
  year :: nat
  month :: nat
  day :: nat
  hour :: nat
  minute :: nat
  second :: nat
  microsecond :: nat

text \<open>\<^verbatim>\<open>datetime.date()\<close>: the calendar day, compared as the tuple (year, month, day).\<close>

definition date :: "datetime \<Rightarrow> nat \<times> nat \<times> nat" where
  "date t = (year t, month t, day t)"

text \<open>Comparison of two naive datetimes: the tuple of all seven fields, lexicographically.\<close>

definition dt_tuple :: "datetime \<Rightarrow> nat \<times> nat \<times> nat \<times> nat \<times> nat \<times> nat \<times> nat" where
  "dt_tuple t = (year t, month t, day t, hour t, minute t, second t, microsecond t)"

definition dt_le :: "datetime \<Rightarrow> datetime \<Rightarrow> bool" where
  "dt_le a b = (dt_tuple a \<le> dt_tuple b)"

definition dt_less :: "datetime \<Rightarrow> datetime \<Rightarrow> bool" where
  "dt_less a b = (dt_tuple a < dt_tuple b)"

subsection \<open>Calendar arithmetic\<close>

text \<open>
  The proleptic Gregorian calendar of the \<^verbatim>\<open>datetime\<close> module: leap years, month lengths,
  the range check of the constructor (which \<^verbatim>\<open>replace\<close> runs on its result), the day
  number \<^verbatim>\<open>toordinal()\<close>, and \<^verbatim>\<open>(a - b).days\<close>, the floor of the difference in days.
\<close>

definition is_leap :: "nat \<Rightarrow> bool" where
  "is_leap y = (if y mod 400 = 0 then True else if y mod 100 = 0 then False else y mod 4 = 0)"

definition days_in_month :: "nat \<Rightarrow> nat \<Rightarrow> nat" where
  "days_in_month y m =
     (if m = 2 then (if is_leap y then 29 else 28)
      else if m = 4 \<or> m = 6 \<or> m = 9 \<or> m = 11 then 30
      else if 1 \<le> m \<and> m \<le> 12 then 31
      else 0)"

definition valid_datetime :: "datetime \<Rightarrow> bool" where
  "valid_datetime t =
     (1 \<le> year t \<and> year t \<le> 9999 \<and> 1 \<le> month t \<and> month t \<le> 12 \<and>
      1 \<le> day t \<and> day t \<le> days_in_month (year t) (month t) \<and>
      hour t < 24 \<and> minute t < 60 \<and> second t < 60 \<and> microsecond t < 1000000)"

text \<open>The constructor's check, as run by \<^verbatim>\<open>replace\<close> on the record with the new fields.\<close>

definition dt_check :: "datetime \<Rightarrow> py_error + datetime" where
  "dt_check t = (if valid_datetime t then Inr t else Inl ValueError)"

definition days_before_year :: "nat \<Rightarrow> int" where
  "days_before_year y = (let y' = int y - 1 in y' * 365 + y' div 4 - y' div 100 + y' div 400)"

definition days_before_month :: "nat \<Rightarrow> nat \<Rightarrow> int" where
  "days_before_month y m = int (sum_list (map (days_in_month y) [1..<m]))"

definition toordinal :: "datetime \<Rightarrow> int" where
  "toordinal t = days_before_year (year t) + days_before_month (year t) (month t) + int (day t)"

definition days_between :: "datetime \<Rightarrow> datetime \<Rightarrow> int" where
  "days_between a b =
     (let days = toordinal a - toordinal b;
          secs = (int (hour a) * 3600 + int (minute a) * 60 + int (second a))
               - (int (hour b) * 3600 + int (minute b) * 60 + int (second b));
          us = int (microsecond a) - int (microsecond b)
      in ((days * 86400 + secs) * 1000000 + us) div 86400000000)"

text \<open>
  Adding and subtracting \<^verbatim>\<open>timedelta(days=n)\<close>, one calendar day at a time; a result
  outside the years 1 to 9999 is the library's \<^verbatim>\<open>OverflowError\<close>.
\<close>

definition tomorrow :: "datetime \<Rightarrow> py_error + datetime" where
  "tomorrow t =
     (if day t < days_in_month (year t) (month t) then Inr (t\<lparr>day := day t + 1\<rparr>)
      else if month t < 12 then Inr (t\<lparr>month := month t + 1, day := 1\<rparr>)
      else if year t < 9999 then Inr (t\<lparr>year := year t + 1, month := 1, day := 1\<rparr>)
      else Inl OverflowError)"

definition yesterday :: "datetime \<Rightarrow> py_error + datetime" where
  "yesterday t =
     (if 1 < day t then Inr (t\<lparr>day := day t - 1\<rparr>)
      else if 1 < month t
        then Inr (t\<lparr>month := month t - 1, day := days_in_month (year t) (month t - 1)\<rparr>)
      else if 1 < year t then Inr (t\<lparr>year := year t - 1, month := 12, day := 31\<rparr>)
      else Inl OverflowError)"

fun plus_days :: "datetime \<Rightarrow> nat \<Rightarrow> py_error + datetime" where
  "plus_days t 0 = Inr t"
| "plus_days t (Suc n) = (case tomorrow t of Inl e \<Rightarrow> Inl e | Inr t' \<Rightarrow> plus_days t' n)"

fun minus_days :: "datetime \<Rightarrow> nat \<Rightarrow> py_error + datetime" where
  "minus_days t 0 = Inr t"
| "minus_days t (Suc n) = (case yesterday t of Inl e \<Rightarrow> Inl e | Inr t' \<Rightarrow> minus_days t' n)"

subsection \<open>Flow (flow.py)\<close>

text \<open>
  The dataclass \<^verbatim>\<open>Flow\<close>. The field \<^verbatim>\<open>size\<close> is a Python float; amounts are modelled as
  reals, so the statements below are about which flows are summed and how often, not about
  rounding error. The class attribute \<^verbatim>\<open>Flow._id_counter\<close> is process-wide state and lives
  in the record \<open>world\<close> below.
\<close>

record flow =
  flow_id :: int
  size' :: real
  category :: string
  time_executed :: datetime
  recurrent :: int
  comments :: string

text \<open>
  \<^verbatim>\<open>Flow(size, category, time_executed, recurrent, comments)\<close>: the generated
  \<^verbatim>\<open>__init__\<close> followed by \<^verbatim>\<open>__post_init__\<close>, which increments the class counter and
  assigns it as the id. Takes the counter, returns the new flow and the new counter.
\<close>

definition Flow_init :: "int \<Rightarrow> real \<Rightarrow> string \<Rightarrow> datetime \<Rightarrow> int \<Rightarrow> string \<Rightarrow> flow \<times> int" where
  "Flow_init counter sz cat t rec com =
     (let counter' = counter + 1
      in (\<lparr>flow_id = counter', size' = sz, category = cat, time_executed = t,
           recurrent = rec, comments = com\<rparr>, counter'))"

subsection \<open>Ledger (ledger.py)\<close>

text \<open>
  The dataclass \<^verbatim>\<open>Ledger\<close>. The dictionary \<^verbatim>\<open>_flows\<close> always has exactly the two keys
  \<^verbatim>\<open>'executed'\<close> (a tuple) and \<^verbatim>\<open>'projected'\<close> (a list); they are the two list fields here.
  Each entry of a list stands for one object: the model assumes that no \<^verbatim>\<open>Flow\<close> object
  occurs at two positions of the ledger.
\<close>

record ledger =
  account_name :: string
  executed :: "flow list"
  projected :: "flow list"
  last_id :: int

text \<open>
  \<^verbatim>\<open>Ledger(account_name, last_id=0)\<close>: \<^verbatim>\<open>account_name\<close> has no default, so a call without
  it raises \<^verbatim>\<open>TypeError\<close>; \<^verbatim>\<open>__post_init__\<close> sets both partitions empty.
\<close>

definition Ledger_init :: "string option \<Rightarrow> int option \<Rightarrow> py_error + ledger" where
  "Ledger_init name lid =
     (case name of
        None \<Rightarrow> Inl TypeError
      | Some n \<Rightarrow> Inr \<lparr>account_name = n, executed = [], projected = [],
                       last_id = (case lid of None \<Rightarrow> 0 | Some i \<Rightarrow> i)\<rparr>)"

text \<open>The process state the ledger operations touch: the id counter of the class and a ledger.\<close>

record world =
  id_counter :: int
  the_ledger :: ledger

text \<open>
  \<^verbatim>\<open>Ledger.add_flow(flow, is_proj)\<close>: both scans return early on an equal id; otherwise the
  flow is appended to the chosen partition and \<^verbatim>\<open>last_id\<close> is set. The method returns
  \<^verbatim>\<open>None\<close> on every path and has no \<^verbatim>\<open>raise\<close>.
\<close>

definition add_flow :: "ledger \<Rightarrow> flow \<Rightarrow> bool \<Rightarrow> ledger" where
  "add_flow L f is_proj =
     (if \<exists>existing_flow \<in> set (projected L). flow_id existing_flow = flow_id f then L
      else if \<exists>existing_flow \<in> set (executed L). flow_id existing_flow = flow_id f then L
      else (if is_proj then L\<lparr>projected := projected L @ [f]\<rparr>
            else L\<lparr>executed := executed L @ [f]\<rparr>) \<lparr>last_id := flow_id f\<rparr>)"

text \<open>
  The assignment \<^verbatim>\<open>flow.time_executed = time_executed\<close> on the object found by the scan of
  \<^verbatim>\<open>execute_flow\<close>: the first entry with the id.
\<close>

fun set_time_executed :: "flow list \<Rightarrow> int \<Rightarrow> datetime \<Rightarrow> flow list" where
  "set_time_executed [] fid t = []"
| "set_time_executed (f # fs) fid t =
     (if flow_id f = fid then f\<lparr>time_executed := t\<rparr> # fs else f # set_time_executed fs fid t)"

text \<open>
  \<^verbatim>\<open>Ledger.execute_flow(flow_id, real_size, time_executed)\<close>. The loop returns at the first
  projected flow with the id; \<^verbatim>\<open>list.remove\<close> deletes the first entry equal to it.
\<close>

definition execute_flow :: "world \<Rightarrow> int \<Rightarrow> real \<Rightarrow> datetime \<Rightarrow> bool \<times> world" where
  "execute_flow w fid real_size t =
     (let L = the_ledger w in
      case find (\<lambda>flow. flow_id flow = fid) (projected L) of
        None \<Rightarrow> (False, w)
      | Some flow \<Rightarrow>
          (let (new_flow, counter') =
                 Flow_init (id_counter w) real_size (category flow) t (recurrent flow) (comments flow);
               L1 = L\<lparr>executed := executed L @ [new_flow]\<rparr>;
               L2 = (if recurrent flow = 0
                     then L1\<lparr>projected := remove1 flow (projected L1)\<rparr>
                     else L1\<lparr>projected := set_time_executed (projected L1) fid t\<rparr>)
           in (True, \<lparr>id_counter = counter', the_ledger = L2\<rparr>)))"

text \<open>\<^verbatim>\<open>Ledger.remove_projected_flow(flow_id)\<close>: filter, then compare the lengths.\<close>

definition remove_projected_flow :: "ledger \<Rightarrow> int \<Rightarrow> bool \<times> ledger" where
  "remove_projected_flow L fid =
     (let initial_count = length (projected L);
          L' = L\<lparr>projected := filter (\<lambda>flow. flow_id flow \<noteq> fid) (projected L)\<rparr>
      in (length (projected L') < initial_count, L'))"

section \<open>Balance engine (utils/balance.py)\<close>

subsection \<open>Point-in-time balances\<close>

text \<open>
  The default of the parameter \<^verbatim>\<open>_timestamp\<close> of \<^verbatim>\<open>get_balance\<close> is the expression
  \<^verbatim>\<open>datetime.now()\<close>. Python evaluates a default once, when the \<^verbatim>\<open>def\<close> statement runs, that
  is when the module is imported, and stores the value with the function. The module state is
  that stored value; \<open>import_balance\<close> takes what the clock shows at import.
\<close>

record balance_module =
  default_timestamp :: datetime

definition import_balance :: "datetime \<Rightarrow> balance_module" where
  "import_balance clock = \<lparr>default_timestamp = clock\<rparr>"

text \<open>
  \<^verbatim>\<open>get_balance(ledger, _timestamp)\<close>: \<^verbatim>\<open>sum\<close> over a generator, that is an accumulator
  starting at 0 that runs through the executed flows in order. \<open>None\<close> for the timestamp is
  a call that leaves the parameter out.
\<close>

definition get_balance :: "balance_module \<Rightarrow> ledger \<Rightarrow> datetime option \<Rightarrow> real" where
  "get_balance M L ts =
     (let timestamp = (case ts of None \<Rightarrow> default_timestamp M | Some t \<Rightarrow> t)
      in fold (\<lambda>flow total. if date (time_executed flow) \<le> date timestamp
                             then total + size' flow else total)
           (executed L) 0)"

text \<open>
  \<^verbatim>\<open>get_future_balance(ledger, timestamp)\<close>: the loop over the projected flows, started at
  \<^verbatim>\<open>get_balance(ledger)\<close>. The body assigns to the local \<^verbatim>\<open>balance\<close> only; neither the
  ledger nor a flow is written, so the model returns the number alone.
\<close>

definition get_future_balance :: "balance_module \<Rightarrow> ledger \<Rightarrow> datetime \<Rightarrow> real" where
  "get_future_balance M L timestamp =
     fold (\<lambda>proj_flow balance.
             if dt_le (time_executed proj_flow) timestamp then
               (if recurrent proj_flow = 0 then balance + size' proj_flow
                else (let days = days_between timestamp (time_executed proj_flow);
                          times_executed = days div recurrent proj_flow
                      in balance + size' proj_flow * of_int times_executed))
             else balance)
       (projected L) (get_balance M L None)"

text \<open>
  The specification's wording of what one projected flow adds to the projected balance
  (section 4.2): nothing when it is due after \<open>asOf\<close>, its amount once when it does not recur,
  its amount times the whole number of elapsed periods when it does.
\<close>

definition contribution :: "datetime \<Rightarrow> flow \<Rightarrow> real" where
  "contribution asOf f =
     (if dt_le (time_executed f) asOf then
        (if recurrent f = 0 then size' f
         else size' f * of_int (days_between asOf (time_executed f) div recurrent f))
      else 0)"

subsection \<open>Month arithmetic of the two series\<close>

text \<open>\<^verbatim>\<open>calendar.monthrange(year, month)[1]\<close>: the length of the month, or an error.\<close>

definition monthrange :: "nat \<Rightarrow> nat \<Rightarrow> py_error + nat" where
  "monthrange y m = (if 1 \<le> m \<and> m \<le> 12 then Inr (days_in_month y m) else Inl IllegalMonthError)"

text \<open>
  \<^verbatim>\<open>current_date.replace(day=last_day, hour=23, minute=59, second=59)\<close>; the microsecond
  of \<^verbatim>\<open>current_date\<close> stays.
\<close>

definition end_of_month :: "datetime \<Rightarrow> py_error + datetime" where
  "end_of_month current_date =
     (case monthrange (year current_date) (month current_date) of
        Inl e \<Rightarrow> Inl e
      | Inr last_day \<Rightarrow>
          dt_check (current_date\<lparr>day := last_day, hour := 23, minute := 59, second := 59\<rparr>))"

text \<open>
  \<^verbatim>\<open>(current_date.replace(day=28) + timedelta(days=4)).replace(day=1)\<close>, the step of the
  forward walk, and \<^verbatim>\<open>current_date.replace(day=1) - timedelta(days=1)\<close>, the step of the
  backward walk.
\<close>

definition next_month_start :: "datetime \<Rightarrow> py_error + datetime" where
  "next_month_start current_date =
     (case dt_check (current_date\<lparr>day := 28\<rparr>) of
        Inl e \<Rightarrow> Inl e
      | Inr d28 \<Rightarrow>
          (case plus_days d28 4 of
             Inl e \<Rightarrow> Inl e
           | Inr next_month \<Rightarrow> dt_check (next_month\<lparr>day := 1\<rparr>)))"

definition prev_month_end :: "datetime \<Rightarrow> py_error + datetime" where
  "prev_month_end current_date =
     (case dt_check (current_date\<lparr>day := 1\<rparr>) of
        Inl e \<Rightarrow> Inl e
      | Inr d1 \<Rightarrow> minus_days d1 1)"

text \<open>
  The key \<^verbatim>\<open>f"{current_date.year}-{current_date.month:02d}"\<close>: the year in decimal, a
  hyphen, the month in decimal padded with zeros to two characters.
\<close>

definition digit_char :: "nat \<Rightarrow> char" where
  "digit_char d = ''0123456789'' ! d"

function show_nat :: "nat \<Rightarrow> string" where
  "show_nat n = (if n < 10 then [digit_char n] else show_nat (n div 10) @ [digit_char (n mod 10)])"
  by pat_completeness auto
termination
  by (relation "measure id") auto

definition format_02d :: "nat \<Rightarrow> string" where
  "format_02d m = (if m < 10 then ''0'' @ show_nat m else show_nat m)"

definition month_key :: "datetime \<Rightarrow> string" where
  "month_key current_date = show_nat (year current_date) @ ''-'' @ format_02d (month current_date)"

text \<open>
  \<^verbatim>\<open>float(f'{balance:.2f}')\<close> on a real: the nearest multiple of 1/100, a tie going to the
  even hundredth (the formatting rounds the exact value of the float half to even).
\<close>

definition round2 :: "real \<Rightarrow> real" where
  "round2 x =
     (let scaled = x * 100; lower = \<lfloor>scaled\<rfloor>; rest = scaled - of_int lower
      in (if rest < 1 / 2 then of_int lower
          else if 1 / 2 < rest then of_int (lower + 1)
          else if even lower then of_int lower else of_int (lower + 1)) / 100)"

section \<open>Persistence (utils/save.py)\<close>

text \<open>
  \<^verbatim>\<open>load_ledger(load_path)\<close>. What \<^verbatim>\<open>open\<close> and \<^verbatim>\<open>pickle.load\<close> do with a path is the
  parameter \<open>read_pickle\<close>: the unpickled ledger, or the exception raised. The handler
  evaluates \<^verbatim>\<open>Ledger()\<close>, the constructor without arguments, and an exception raised inside
  a handler leaves the function.
\<close>

definition load_ledger :: "(string \<Rightarrow> py_error + ledger) \<Rightarrow> string \<Rightarrow> py_error + ledger" where
  "load_ledger read_pickle load_path =
     (case read_pickle load_path of
        Inr ledger \<Rightarrow> Inr ledger
      | Inl e \<Rightarrow> Ledger_init None None)"

section \<open>Sequences of calls\<close>

text \<open>The number of flows of a ledger that carry a given id, over both partitions.\<close>

definition count_id :: "ledger \<Rightarrow> int \<Rightarrow> nat" where
  "count_id L i = length (filter (\<lambda>g. flow_id g = i) (executed L @ projected L))"

text \<open>
  The uniqueness invariant of the data model: no id in both partitions, none twice in one.
\<close>

definition unique_ids :: "ledger \<Rightarrow> bool" where
  "unique_ids L \<longleftrightarrow>
     set (map flow_id (executed L)) \<inter> set (map flow_id (projected L)) = {} \<and>
     distinct (map flow_id (executed L)) \<and> distinct (map flow_id (projected L))"

text \<open>
  What a client does with a ledger: build a flow with the constructor (which only moves
  the class counter; the client keeps the object), hand a flow to \<^verbatim>\<open>add_flow\<close>, execute
  or remove a projected flow. A flow handed to \<^verbatim>\<open>add_flow\<close> was built by the
  constructor, so its id is one the counter has reached (\<open>from_constructor\<close>); its other
  fields are free, since a client may assign them after construction.
\<close>

datatype call =
    Construct real string datetime int string
  | Add_flow flow bool
  | Execute_flow int real datetime
  | Remove_projected_flow int

fun step :: "world \<Rightarrow> call \<Rightarrow> world" where
  "step w (Construct sz cat t rec com) = w\<lparr>id_counter := snd (Flow_init (id_counter w) sz cat t rec com)\<rparr>"
| "step w (Add_flow f is_proj) = w\<lparr>the_ledger := add_flow (the_ledger w) f is_proj\<rparr>"
| "step w (Execute_flow fid real_size t) = snd (execute_flow w fid real_size t)"
| "step w (Remove_projected_flow fid) = w\<lparr>the_ledger := snd (remove_projected_flow (the_ledger w) fid)\<rparr>"

fun from_constructor :: "world \<Rightarrow> call \<Rightarrow> bool" where
  "from_constructor w (Add_flow f is_proj) = (flow_id f \<le> id_counter w)"
| "from_constructor w c = True"

fun run :: "world \<Rightarrow> call list \<Rightarrow> world" where
  "run w [] = w"
| "run w (c # cs) = run (step w c) cs"

fun calls_ok :: "world \<Rightarrow> call list \<Rightarrow> bool" where
  "calls_ok w [] = True"
| "calls_ok w (c # cs) = (from_constructor w c \<and> calls_ok (step w c) cs)"

text \<open>Every id stored in the ledger has already been issued by the counter.\<close>

definition ids_issued :: "world \<Rightarrow> bool" where
  "ids_issued w \<longleftrightarrow>
     (\<forall>i\<in>set (map flow_id (executed (the_ledger w) @ projected (the_ledger w))). i \<le> id_counter w)"

section \<open>Sample data\<close>

text \<open>Concrete flows, ledgers and call sequences at which the properties below are evaluated.\<close>

definition midnight :: "nat \<Rightarrow> nat \<Rightarrow> nat \<Rightarrow> datetime" where
  "midnight y m d = \<lparr>year = y, month = m, day = d, hour = 0, minute = 0, second = 0, microsecond = 0\<rparr>"

definition rent :: flow where
  "rent = \<lparr>flow_id = 1, size' = -50, category = ''rent'', time_executed = midnight 2024 1 1,
           recurrent = 7, comments = ''''\<rparr>"

definition salary :: flow where
  "salary = \<lparr>flow_id = 0, size' = 1000, category = ''salary'', time_executed = midnight 2024 1 1,
           recurrent = 0, comments = ''''\<rparr>"

definition sample_world :: world where
  "sample_world = \<lparr>id_counter = 1,
     the_ledger = \<lparr>account_name = ''main'', executed = [salary], projected = [rent], last_id = 1\<rparr>\<rparr>"

definition sample_calls :: "call list" where
  "sample_calls =
     [Construct 1000 ''salary'' (midnight 2024 1 1) 0 '''',
      Add_flow salary False,
      Construct (-50) ''rent'' (midnight 2024 1 1) 7 '''',
      Add_flow rent True,
      Add_flow rent False,
      Execute_flow 1 (-48) (midnight 2024 1 8),
      Remove_projected_flow 1]"

definition fresh_ledger :: ledger where
  "fresh_ledger = \<lparr>account_name = ''main'', executed = [], projected = [], last_id = 0\<rparr>"

definition subscription :: flow where
  "subscription = \<lparr>flow_id = 2, size' = 100, category = ''rent'', time_executed = midnight 2024 1 1,
           recurrent = 30, comments = ''''\<rparr>"

definition late_bonus :: flow where
  "late_bonus = \<lparr>flow_id = 3, size' = 100, category = ''bonus'', time_executed = midnight 2024 1 2,
           recurrent = 0, comments = ''''\<rparr>"

definition overnight_ledger :: ledger where
  "overnight_ledger = \<lparr>account_name = ''main'', executed = [late_bonus], projected = [], last_id = 3\<rparr>"

definition jan10 :: datetime where
  "jan10 = \<lparr>year = 2024, month = 1, day = 10, hour = 9, minute = 30, second = 0, microsecond = 0\<rparr>"

definition jan20_income :: flow where
  "jan20_income = \<lparr>flow_id = 4, size' = 100, category = ''gift'', time_executed = midnight 2024 1 20,
           recurrent = 0, comments = ''''\<rparr>"

definition jan15_bill :: flow where
  "jan15_bill = \<lparr>flow_id = 5, size' = 50, category = ''bill'', time_executed = midnight 2024 1 15,
           recurrent = 0, comments = ''''\<rparr>"

definition seam_ledger :: ledger where
  "seam_ledger = \<lparr>account_name = ''main'', executed = [jan20_income], projected = [jan15_bill], last_id = 5\<rparr>"

definition failing_read :: "string \<Rightarrow> py_error + ledger" where
  "failing_read path = Inl OSError"

section \<open>Monthly series (utils/balance.py)\<close>

text \<open>
  The two walks step from month to month. Their steps in closed form come first: the
  termination of the walks rests on them.
\<close>

lemma days_in_month_range:
  "1 \<le> m \<Longrightarrow> m \<le> 12 \<Longrightarrow> 28 \<le> days_in_month y m \<and> days_in_month y m \<le> 31"
  by (simp add: days_in_month_def)

lemma plus_days_same_month:
  "day t + n \<le> days_in_month (year t) (month t) \<Longrightarrow> plus_days t n = Inr (t\<lparr>day := day t + n\<rparr>)"
proof (induction n arbitrary: t)
  case 0
  then show ?case by simp
next
  case (Suc n)
  from Suc.prems have "tomorrow t = Inr (t\<lparr>day := day t + 1\<rparr>)"
    by (simp add: tomorrow_def)
  moreover from Suc.prems
  have "plus_days (t\<lparr>day := day t + 1\<rparr>) n
          = Inr (t\<lparr>day := day t + 1\<rparr>\<lparr>day := day (t\<lparr>day := day t + 1\<rparr>) + n\<rparr>)"
    by (intro Suc.IH) simp
  ultimately show ?case by simp
qed

lemma plus_days_add:
  "plus_days t (a + b) = (case plus_days t a of Inl e \<Rightarrow> Inl e | Inr t' \<Rightarrow> plus_days t' b)"
  by (induction a arbitrary: t) (auto split: sum.splits)

lemma plus_four_from_28:
  assumes "1 \<le> month t" and "month t \<le> 12" and "day t = 28"
  shows "plus_days t 4 =
      (if month t < 12
         then Inr (t\<lparr>month := month t + 1, day := 32 - days_in_month (year t) (month t)\<rparr>)
       else if year t < 9999
         then Inr (t\<lparr>year := year t + 1, month := 1, day := 32 - days_in_month (year t) (month t)\<rparr>)
       else Inl OverflowError)"
proof -
  let ?dim = "days_in_month (year t) (month t)"
  from assms(1,2) have range: "28 \<le> ?dim" "?dim \<le> 31"
    using days_in_month_range [of "month t" "year t"] by simp_all
  define a where "a = ?dim - 28"
  define b where "b = 3 - a"
  have split: "(4::nat) = a + (1 + b)" using range by (simp add: a_def b_def)
  let ?last = "t\<lparr>day := ?dim\<rparr>"
  have first: "plus_days t a = Inr ?last"
    using plus_days_same_month [of t a] range assms(3) by (simp add: a_def)
  have one: "plus_days u (1 + b) = (case tomorrow u of Inl e \<Rightarrow> Inl e | Inr t' \<Rightarrow> plus_days t' b)" for u
    by simp
  have "plus_days t 4 = plus_days t (a + (1 + b))"
    by (simp only: split [symmetric])
  also have "\<dots> = plus_days ?last (1 + b)"
    by (simp only: plus_days_add [of t a "1 + b"] first sum.case)
  also have "\<dots> = (case tomorrow ?last of Inl e \<Rightarrow> Inl e | Inr t' \<Rightarrow> plus_days t' b)"
    by (simp only: one)
  finally have unfold: "plus_days t 4 = (case tomorrow ?last of Inl e \<Rightarrow> Inl e | Inr t' \<Rightarrow> plus_days t' b)" .
  have day_b: "1 + b = 32 - ?dim" using range by (simp add: a_def b_def)
  show ?thesis
  proof (cases "month t < 12")
    case True
    let ?t1 = "t\<lparr>month := month t + 1, day := 1\<rparr>"
    have "28 \<le> days_in_month (year ?t1) (month ?t1)"
      using days_in_month_range [of "month t + 1" "year t"] True by simp
    then have "day ?t1 + b \<le> days_in_month (year ?t1) (month ?t1)" by (simp add: b_def)
    then have "plus_days ?t1 b = Inr (?t1\<lparr>day := day ?t1 + b\<rparr>)" by (rule plus_days_same_month)
    with True unfold day_b show ?thesis by (simp add: tomorrow_def)
  next
    case False
    show ?thesis
    proof (cases "year t < 9999")
      case True
      let ?t1 = "t\<lparr>year := year t + 1, month := 1, day := 1\<rparr>"
      have "28 \<le> days_in_month (year ?t1) (month ?t1)"
        using days_in_month_range [of 1 "year t + 1"] by simp
      then have "day ?t1 + b \<le> days_in_month (year ?t1) (month ?t1)" by (simp add: b_def)
      then have "plus_days ?t1 b = Inr (?t1\<lparr>day := day ?t1 + b\<rparr>)" by (rule plus_days_same_month)
      with True \<open>\<not> month t < 12\<close> unfold day_b show ?thesis by (simp add: tomorrow_def)
    next
      case False
      with \<open>\<not> month t < 12\<close> unfold show ?thesis by (simp add: tomorrow_def)
    qed
  qed
qed

lemma next_month_start_eq:
  "next_month_start cur =
     (if valid_datetime (cur\<lparr>day := 28\<rparr>) then
        (if month cur < 12 then Inr (cur\<lparr>month := month cur + 1, day := 1\<rparr>)
         else if year cur < 9999 then Inr (cur\<lparr>year := year cur + 1, month := 1, day := 1\<rparr>)
         else Inl OverflowError)
      else Inl ValueError)"
proof (cases "valid_datetime (cur\<lparr>day := 28\<rparr>)")
  case False
  then show ?thesis by (simp add: next_month_start_def dt_check_def)
next
  case True
  then have m: "1 \<le> month cur" "month cur \<le> 12" and rest: "1 \<le> year cur" "year cur \<le> 9999"
    "hour cur < 24" "minute cur < 60" "second cur < 60" "microsecond cur < 1000000"
    by (simp_all add: valid_datetime_def)
  have four: "plus_days (cur\<lparr>day := 28\<rparr>) 4 =
      (if month cur < 12
         then Inr (cur\<lparr>month := month cur + 1, day := 32 - days_in_month (year cur) (month cur)\<rparr>)
       else if year cur < 9999
         then Inr (cur\<lparr>year := year cur + 1, month := 1, day := 32 - days_in_month (year cur) (month cur)\<rparr>)
       else Inl OverflowError)"
    using plus_four_from_28 [of "cur\<lparr>day := 28\<rparr>"] m by simp
  have v1: "valid_datetime (cur\<lparr>month := month cur + 1, day := 1\<rparr>)" if "month cur < 12"
    using that m rest days_in_month_range [of "month cur + 1" "year cur"]
    by (simp add: valid_datetime_def)
  have v2: "valid_datetime (cur\<lparr>year := year cur + 1, month := 1, day := 1\<rparr>)" if "year cur < 9999"
    using that rest days_in_month_range [of 1 "year cur + 1"]
    by (simp add: valid_datetime_def)
  from True four v1 v2 show ?thesis
    by (simp add: next_month_start_def dt_check_def)
qed

lemma prev_month_end_eq:
  "prev_month_end cur =
     (if valid_datetime (cur\<lparr>day := 1\<rparr>) then
        (if 1 < month cur
           then Inr (cur\<lparr>month := month cur - 1, day := days_in_month (year cur) (month cur - 1)\<rparr>)
         else if 1 < year cur then Inr (cur\<lparr>year := year cur - 1, month := 12, day := 31\<rparr>)
         else Inl OverflowError)
      else Inl ValueError)"
  by (simp add: prev_month_end_def dt_check_def yesterday_def split: sum.splits)

text \<open>
  \<^verbatim>\<open>get_future_monthly_balances(ledger, end_timestamp)\<close>. The dictionary is an association
  list in insertion order; \<open>AList.update\<close> overwrites the value of a key that is present and
  appends a new key at the end, as assignment to a \<^verbatim>\<open>dict\<close> entry does. \<open>now\<close> is what
  \<^verbatim>\<open>datetime.now()\<close> returns in the first statement of the function.
\<close>

function future_loop ::
  "balance_module \<Rightarrow> ledger \<Rightarrow> datetime \<Rightarrow> datetime \<Rightarrow> (string \<times> real) list
     \<Rightarrow> py_error + (string \<times> real) list" where
  "future_loop M L end_timestamp current_date monthly_balances =
     (if dt_le current_date end_timestamp then
        (case end_of_month current_date of
           Inl e \<Rightarrow> Inl e
         | Inr month_end \<Rightarrow>
             (case next_month_start current_date of
                Inl e \<Rightarrow> Inl e
              | Inr next_date \<Rightarrow>
                  future_loop M L end_timestamp next_date
                    (AList.update (month_key current_date)
                       (round2 (get_future_balance M L
                          (if dt_less end_timestamp month_end then end_timestamp else month_end)))
                       monthly_balances)))
      else Inr monthly_balances)"
  by pat_completeness auto
termination
proof (relation "measure (\<lambda>(M, L, end_timestamp, current_date, monthly_balances).
          (year end_timestamp * 12 + 13) - (year current_date * 12 + month current_date))")
  show "wf (measure (\<lambda>(M, L, end_timestamp, current_date, monthly_balances).
          (year end_timestamp * 12 + 13) - (year current_date * 12 + month current_date)))"
    by simp
next
  fix M :: balance_module and L :: ledger
    and end_timestamp current_date month_end next_date :: datetime
    and monthly_balances :: "(string \<times> real) list"
  assume le: "dt_le current_date end_timestamp"
    and nxt: "next_month_start current_date = Inr next_date"
  from le have "year current_date \<le> year end_timestamp"
    by (auto simp: dt_le_def dt_tuple_def)
  moreover from nxt have "month current_date \<le> 12 \<and>
      year next_date * 12 + month next_date = year current_date * 12 + month current_date + 1"
    by (auto simp: next_month_start_eq valid_datetime_def split: if_splits)
  ultimately have "(year end_timestamp * 12 + 13) - (year next_date * 12 + month next_date)
      < (year end_timestamp * 12 + 13) - (year current_date * 12 + month current_date)"
    by linarith
  then show "((M, L, end_timestamp, next_date,
            AList.update (month_key current_date)
              (round2 (get_future_balance M L
                 (if dt_less end_timestamp month_end then end_timestamp else month_end)))
              monthly_balances),
           (M, L, end_timestamp, current_date, monthly_balances))
          \<in> measure (\<lambda>(M, L, end_timestamp, current_date, monthly_balances).
          (year end_timestamp * 12 + 13) - (year current_date * 12 + month current_date))"
    by simp
qed

declare future_loop.simps [simp del]

definition get_future_monthly_balances ::
  "balance_module \<Rightarrow> datetime \<Rightarrow> ledger \<Rightarrow> datetime \<Rightarrow> py_error + (string \<times> real) list" where
  "get_future_monthly_balances M now L end_timestamp = future_loop M L end_timestamp now []"

text \<open>
  \<^verbatim>\<open>get_past_monthly_balances(ledger, end_timestamp)\<close>. The first assignment to
  \<^verbatim>\<open>balance\<close> and the variable \<^verbatim>\<open>start_of_month\<close> are never read; of the latter only the
  \<^verbatim>\<open>replace\<close> that computes it remains, since it can raise.
\<close>

function past_loop ::
  "balance_module \<Rightarrow> ledger \<Rightarrow> datetime \<Rightarrow> datetime \<Rightarrow> (string \<times> real) list
     \<Rightarrow> py_error + (string \<times> real) list" where
  "past_loop M L end_timestamp current_date monthly_balances =
     (if dt_le end_timestamp current_date then
        (case end_of_month current_date of
           Inl e \<Rightarrow> Inl e
         | Inr month_end \<Rightarrow>
             (case dt_check (current_date\<lparr>day := 1, hour := 0, minute := 0, second := 0\<rparr>) of
                Inl e \<Rightarrow> Inl e
              | Inr start_of_month \<Rightarrow>
                  (case prev_month_end current_date of
                     Inl e \<Rightarrow> Inl e
                   | Inr prev_date \<Rightarrow>
                       past_loop M L end_timestamp prev_date
                         (AList.update (month_key current_date)
                            (get_balance M L (Some month_end)) monthly_balances))))
      else Inr monthly_balances)"
  by pat_completeness auto
termination
proof (relation "measure (\<lambda>(M, L, end_timestamp, current_date, monthly_balances).
          year current_date * 12 + month current_date)")
  show "wf (measure (\<lambda>(M, L, end_timestamp, current_date, monthly_balances).
          year current_date * 12 + month current_date))"
    by simp
next
  fix M :: balance_module and L :: ledger
    and end_timestamp current_date month_end start_of_month prev_date :: datetime
    and monthly_balances :: "(string \<times> real) list"
  assume prv: "prev_month_end current_date = Inr prev_date"
  then have "year prev_date * 12 + month prev_date < year current_date * 12 + month current_date"
    by (auto simp: prev_month_end_eq valid_datetime_def split: if_splits)
  then show "((M, L, end_timestamp, prev_date,
            AList.update (month_key current_date) (get_balance M L (Some month_end)) monthly_balances),
           (M, L, end_timestamp, current_date, monthly_balances))
          \<in> measure (\<lambda>(M, L, end_timestamp, current_date, monthly_balances).
          year current_date * 12 + month current_date)"
    by simp
qed

declare past_loop.simps [simp del]

definition get_past_monthly_balances ::
  "balance_module \<Rightarrow> datetime \<Rightarrow> ledger \<Rightarrow> datetime \<Rightarrow> py_error + (string \<times> real) list" where
  "get_past_monthly_balances M now L end_timestamp = past_loop M L end_timestamp now []"

section \<open>Properties of the ledger operations\<close>

subsection \<open>Executing a projected flow\<close>

lemma first_match:
  assumes "\<exists>f\<in>set P. flow_id f = fid"
  shows "\<exists>i<length P. flow_id (P ! i) = fid \<and> (\<forall>j<i. flow_id (P ! j) \<noteq> fid) \<and>
           find (\<lambda>flow. flow_id flow = fid) P = Some (P ! i) \<and>
           remove1 (P ! i) P = take i P @ drop (Suc i) P \<and>
           set_time_executed P fid t = P[i := (P ! i)\<lparr>time_executed := t\<rparr>]"
  using assms
proof (induction P)
  case Nil
  then show ?case by simp
next
  case (Cons a P)
  show ?case
  proof (cases "flow_id a = fid")
    case True
    then have "0 < length (a # P) \<and> flow_id ((a # P) ! 0) = fid \<and>
           (\<forall>j<0. flow_id ((a # P) ! j) \<noteq> fid) \<and>
           find (\<lambda>flow. flow_id flow = fid) (a # P) = Some ((a # P) ! 0) \<and>
           remove1 ((a # P) ! 0) (a # P) = take 0 (a # P) @ drop (Suc 0) (a # P) \<and>
           set_time_executed (a # P) fid t = (a # P)[0 := ((a # P) ! 0)\<lparr>time_executed := t\<rparr>]"
      by simp
    then show ?thesis by blast
  next
    case False
    with Cons.prems have "\<exists>f\<in>set P. flow_id f = fid" by auto
    from Cons.IH [OF this] obtain i where i: "i < length P" "flow_id (P ! i) = fid"
      "\<forall>j<i. flow_id (P ! j) \<noteq> fid"
      "find (\<lambda>flow. flow_id flow = fid) P = Some (P ! i)"
      "remove1 (P ! i) P = take i P @ drop (Suc i) P"
      "set_time_executed P fid t = P[i := (P ! i)\<lparr>time_executed := t\<rparr>]"
      by blast
    from False i(2) have ne: "P ! i \<noteq> a" by auto
    have earlier: "\<forall>j<Suc i. flow_id ((a # P) ! j) \<noteq> fid"
      using False i(3) by (simp add: nth_Cons split: nat.split)
    have "Suc i < length (a # P) \<and> flow_id ((a # P) ! Suc i) = fid \<and>
           (\<forall>j<Suc i. flow_id ((a # P) ! j) \<noteq> fid) \<and>
           find (\<lambda>flow. flow_id flow = fid) (a # P) = Some ((a # P) ! Suc i) \<and>
           remove1 ((a # P) ! Suc i) (a # P) = take (Suc i) (a # P) @ drop (Suc (Suc i)) (a # P) \<and>
           set_time_executed (a # P) fid t = (a # P)[Suc i := ((a # P) ! Suc i)\<lparr>time_executed := t\<rparr>]"
      using False i(1,2,4,5,6) ne earlier by simp
    then show ?thesis by blast
  qed
qed

text \<open>
  Claim C4. When the projected partition holds a flow with the given id, \<open>execute_flow\<close>
  returns true. With \<open>i\<close> the position of the first such flow (the matched flow), the
  executed partition grows by exactly one new flow at its end; that flow has a fresh id, the
  realized amount and the execution time passed in, and the category, recurrence period and
  note of the matched flow. If the matched flow's period is 0, it is deleted from the
  projected partition, whose length drops by one; if the period is positive, the projected
  partition keeps its length and differs only at position \<open>i\<close>, where the time of the
  matched flow is now the execution time passed in.
\<close>

theorem execute_flow_found:
  assumes "\<exists>f\<in>set (projected (the_ledger w)). flow_id f = fid"
  shows "\<exists>i new_flow w'.
      i < length (projected (the_ledger w)) \<and>
      flow_id (projected (the_ledger w) ! i) = fid \<and>
      (\<forall>j<i. flow_id (projected (the_ledger w) ! j) \<noteq> fid) \<and>
      execute_flow w fid real_size t = (True, w') \<and>
      executed (the_ledger w') = executed (the_ledger w) @ [new_flow] \<and>
      flow_id new_flow = id_counter w + 1 \<and>
      size' new_flow = real_size \<and>
      time_executed new_flow = t \<and>
      category new_flow = category (projected (the_ledger w) ! i) \<and>
      recurrent new_flow = recurrent (projected (the_ledger w) ! i) \<and>
      comments new_flow = comments (projected (the_ledger w) ! i) \<and>
      (recurrent (projected (the_ledger w) ! i) = 0 \<longrightarrow>
         projected (the_ledger w') = take i (projected (the_ledger w)) @ drop (Suc i) (projected (the_ledger w)) \<and>
         length (projected (the_ledger w')) + 1 = length (projected (the_ledger w))) \<and>
      (recurrent (projected (the_ledger w) ! i) > 0 \<longrightarrow>
         projected (the_ledger w') =
           (projected (the_ledger w))[i := (projected (the_ledger w) ! i)\<lparr>time_executed := t\<rparr>] \<and>
         length (projected (the_ledger w')) = length (projected (the_ledger w)) \<and>
         time_executed (projected (the_ledger w') ! i) = t)"
proof -
  let ?P = "projected (the_ledger w)"
  from first_match [OF assms, of t] obtain i where i: "i < length ?P" "flow_id (?P ! i) = fid"
      "\<forall>j<i. flow_id (?P ! j) \<noteq> fid"
      "find (\<lambda>flow. flow_id flow = fid) ?P = Some (?P ! i)"
      "remove1 (?P ! i) ?P = take i ?P @ drop (Suc i) ?P"
      "set_time_executed ?P fid t = ?P[i := (?P ! i)\<lparr>time_executed := t\<rparr>]"
    by blast
  let ?m = "?P ! i"
  let ?new = "\<lparr>flow_id = id_counter w + 1, size' = real_size, category = category ?m,
               time_executed = t, recurrent = recurrent ?m, comments = comments ?m\<rparr>"
  let ?P' = "if recurrent ?m = 0 then take i ?P @ drop (Suc i) ?P
             else ?P[i := ?m\<lparr>time_executed := t\<rparr>]"
  let ?w' = "\<lparr>id_counter = id_counter w + 1,
              the_ledger = (the_ledger w)\<lparr>executed := executed (the_ledger w) @ [?new], projected := ?P'\<rparr>\<rparr>"
  have run: "execute_flow w fid real_size t = (True, ?w')"
    using i(4,5,6) by (simp add: execute_flow_def Flow_init_def Let_def)
  have len: "length (take i ?P @ drop (Suc i) ?P) + 1 = length ?P"
    using i(1) by simp
  have "i < length ?P \<and> flow_id ?m = fid \<and> (\<forall>j<i. flow_id (?P ! j) \<noteq> fid) \<and>
      execute_flow w fid real_size t = (True, ?w') \<and>
      executed (the_ledger ?w') = executed (the_ledger w) @ [?new] \<and>
      flow_id ?new = id_counter w + 1 \<and>
      size' ?new = real_size \<and> time_executed ?new = t \<and> category ?new = category ?m \<and>
      recurrent ?new = recurrent ?m \<and> comments ?new = comments ?m \<and>
      (recurrent ?m = 0 \<longrightarrow>
         projected (the_ledger ?w') = take i ?P @ drop (Suc i) ?P \<and>
         length (projected (the_ledger ?w')) + 1 = length ?P) \<and>
      (recurrent ?m > 0 \<longrightarrow>
         projected (the_ledger ?w') = ?P[i := ?m\<lparr>time_executed := t\<rparr>] \<and>
         length (projected (the_ledger ?w')) = length ?P \<and>
         time_executed (projected (the_ledger ?w') ! i) = t)"
    using i(1,2,3) run len by simp
  then show ?thesis by blast
qed

theorem execute_flow_found_witness:
  "(\<exists>f\<in>set (projected (the_ledger sample_world)). flow_id f = 1) \<and>
   fst (execute_flow sample_world 1 (-48) (midnight 2024 1 8)) = True"
proof -
  have h: "\<exists>f\<in>set (projected (the_ledger sample_world)). flow_id f = 1"
    by (simp add: sample_world_def rent_def)
  from execute_flow_found [OF h, of "-48" "midnight 2024 1 8"]
  obtain w' where "execute_flow sample_world 1 (-48) (midnight 2024 1 8) = (True, w')"
    by blast
  with h show ?thesis by simp
qed

subsection \<open>Adding under an id collision\<close>

lemma add_flow_collision:
  "\<exists>g\<in>set (executed L) \<union> set (projected L). flow_id g = flow_id f \<Longrightarrow> add_flow L f p = L"
  by (auto simp: add_flow_def)

lemma add_flow_has_id:
  "\<exists>g\<in>set (executed (add_flow L f p)) \<union> set (projected (add_flow L f p)). flow_id g = flow_id f"
  by (auto simp: add_flow_def)

lemma count_id_add_flow:
  "count_id (add_flow L f p) i =
     (if i = flow_id f \<and> count_id L i = 0 then 1 else count_id L i)"
  by (auto simp: add_flow_def count_id_def filter_empty_conv)

text \<open>
  Claim C5. \<open>add_flow\<close> has no failing path (it is a total function to ledgers), and
  under an id collision it is the identity: when either partition already holds a flow with
  the id of the argument, the ledger that comes back is the one that went in, \<open>last_id\<close>
  and every stored flow included. Hence a second \<open>add_flow\<close> with the same id changes
  nothing after the first, whatever the destination flags, and a ledger that held the id at
  most once holds it exactly once after the two calls.
\<close>

theorem add_flow_id_collision:
  "((\<exists>g\<in>set (executed L) \<union> set (projected L). flow_id g = flow_id f) \<longrightarrow> add_flow L f p = L) \<and>
   (flow_id f' = flow_id f \<longrightarrow> add_flow (add_flow L f p) f' q = add_flow L f p) \<and>
   (flow_id f' = flow_id f \<and> count_id L (flow_id f) \<le> 1 \<longrightarrow>
      count_id (add_flow (add_flow L f p) f' q) (flow_id f) = 1)"
proof (intro conjI impI)
  assume "\<exists>g\<in>set (executed L) \<union> set (projected L). flow_id g = flow_id f"
  then show "add_flow L f p = L" by (rule add_flow_collision)
next
  assume same: "flow_id f' = flow_id f"
  show "add_flow (add_flow L f p) f' q = add_flow L f p"
    using add_flow_has_id [of L f p] add_flow_collision [of "add_flow L f p" f' q] same by simp
next
  assume "flow_id f' = flow_id f \<and> count_id L (flow_id f) \<le> 1"
  then show "count_id (add_flow (add_flow L f p) f' q) (flow_id f) = 1"
    by (auto simp: count_id_add_flow)
qed

theorem add_flow_id_collision_witness:
  "(\<exists>g\<in>set (executed (the_ledger sample_world)) \<union> set (projected (the_ledger sample_world)).
      flow_id g = flow_id rent) \<and>
   count_id (the_ledger sample_world) (flow_id rent) \<le> 1 \<and>
   add_flow (the_ledger sample_world) rent False = the_ledger sample_world \<and>
   add_flow (add_flow (the_ledger sample_world) rent False) rent True
     = add_flow (the_ledger sample_world) rent False \<and>
   count_id (add_flow (add_flow (the_ledger sample_world) rent False) rent True) (flow_id rent) = 1"
proof -
  have h1: "\<exists>g\<in>set (executed (the_ledger sample_world)) \<union> set (projected (the_ledger sample_world)).
      flow_id g = flow_id rent"
    by (simp add: sample_world_def)
  have h2: "count_id (the_ledger sample_world) (flow_id rent) \<le> 1"
    by (simp add: sample_world_def count_id_def rent_def salary_def)
  from add_flow_id_collision [of "the_ledger sample_world" rent False rent True] h1 h2
  show ?thesis by blast
qed

subsection \<open>Failure leaves the state alone\<close>

lemma find_None_iff_ids: "find (\<lambda>flow. flow_id flow = fid) xs = None \<longleftrightarrow> (\<forall>f\<in>set xs. flow_id f \<noteq> fid)"
  by (induction xs) auto

lemma filter_other_ids: "(\<forall>f\<in>set xs. flow_id f \<noteq> fid) \<Longrightarrow> filter (\<lambda>flow. flow_id flow \<noteq> fid) xs = xs"
  by (induction xs) auto

text \<open>
  Claim C6. When no projected flow has the given id, \<open>execute_flow\<close> returns false and
  the whole process state (id counter, both partitions, \<open>last_id\<close>, account name) is the
  one before the call, and \<open>remove_projected_flow\<close> returns false and the ledger is the
  one before the call.
\<close>

theorem not_found_no_change:
  assumes "\<forall>f\<in>set (projected (the_ledger w)). flow_id f \<noteq> fid"
  shows "execute_flow w fid real_size t = (False, w) \<and>
         remove_projected_flow (the_ledger w) fid = (False, the_ledger w)"
proof
  from assms have "find (\<lambda>flow. flow_id flow = fid) (projected (the_ledger w)) = None"
    by (simp add: find_None_iff_ids)
  then show "execute_flow w fid real_size t = (False, w)"
    by (simp add: execute_flow_def)
next
  from assms have "filter (\<lambda>flow. flow_id flow \<noteq> fid) (projected (the_ledger w)) = projected (the_ledger w)"
    by (rule filter_other_ids)
  then show "remove_projected_flow (the_ledger w) fid = (False, the_ledger w)"
    by (simp add: remove_projected_flow_def)
qed

theorem not_found_no_change_witness:
  "5 \<notin> flow_id ` set (projected (the_ledger sample_world)) \<and>
   execute_flow sample_world 5 10 (midnight 2024 1 8) = (False, sample_world) \<and>
   remove_projected_flow (the_ledger sample_world) 5 = (False, the_ledger sample_world)"
proof -
  have h: "\<forall>f\<in>set (projected (the_ledger sample_world)). flow_id f \<noteq> 5"
    by (simp add: sample_world_def rent_def)
  from h have "5 \<notin> flow_id ` set (projected (the_ledger sample_world))" by auto
  with not_found_no_change [OF h, of 10 "midnight 2024 1 8"] show ?thesis by simp
qed

subsection \<open>The uniqueness invariant\<close>

lemma unique_ids_distinct: "unique_ids L \<longleftrightarrow> distinct (map flow_id (executed L @ projected L))"
  by (auto simp: unique_ids_def)

lemma distinct_ids_remove1: "distinct (map flow_id xs) \<Longrightarrow> distinct (map flow_id (remove1 x xs))"
proof (induction xs)
  case Nil
  then show ?case by simp
next
  case (Cons y ys)
  have "set (remove1 x ys) \<subseteq> set ys" by (rule set_remove1_subset)
  with Cons show ?case by auto
qed

lemma ids_bound_mono: "\<forall>i\<in>S. i \<le> (c::int) \<Longrightarrow> c \<le> c' \<Longrightarrow> \<forall>i\<in>S. i \<le> c'"
  by (meson order_trans)

lemma ids_set_time_executed: "map flow_id (set_time_executed xs fid t) = map flow_id xs"
  by (induction xs) auto

lemma unique_ids_add_flow: "unique_ids L \<Longrightarrow> unique_ids (add_flow L f p)"
  by (auto simp: unique_ids_distinct add_flow_def)

lemma unique_ids_remove: "unique_ids L \<Longrightarrow> unique_ids (snd (remove_projected_flow L fid))"
  by (auto simp: unique_ids_distinct remove_projected_flow_def distinct_map_filter)

text \<open>What a successful \<open>execute_flow\<close> does to the ids of the two partitions.\<close>

lemma execute_flow_ids:
  assumes "find (\<lambda>flow. flow_id flow = fid) (projected (the_ledger w)) = Some m"
  shows "id_counter (snd (execute_flow w fid a t)) = id_counter w + 1"
    and "map flow_id (executed (the_ledger (snd (execute_flow w fid a t))))
           = map flow_id (executed (the_ledger w)) @ [id_counter w + 1]"
    and "set (map flow_id (projected (the_ledger (snd (execute_flow w fid a t)))))
           \<subseteq> set (map flow_id (projected (the_ledger w)))"
    and "distinct (map flow_id (projected (the_ledger w))) \<Longrightarrow>
         distinct (map flow_id (projected (the_ledger (snd (execute_flow w fid a t)))))"
proof -
  show "id_counter (snd (execute_flow w fid a t)) = id_counter w + 1"
    using assms by (simp add: execute_flow_def Flow_init_def Let_def)
  show "map flow_id (executed (the_ledger (snd (execute_flow w fid a t))))
           = map flow_id (executed (the_ledger w)) @ [id_counter w + 1]"
    using assms by (simp add: execute_flow_def Flow_init_def Let_def)
  have "set (remove1 m (projected (the_ledger w))) \<subseteq> set (projected (the_ledger w))"
    by (rule set_remove1_subset)
  then have "set (map flow_id (remove1 m (projected (the_ledger w))))
           \<subseteq> set (map flow_id (projected (the_ledger w)))"
    by auto
  moreover have "projected (the_ledger (snd (execute_flow w fid a t))) =
      (if recurrent m = 0 then remove1 m (projected (the_ledger w))
       else set_time_executed (projected (the_ledger w)) fid t)"
    using assms by (simp add: execute_flow_def Flow_init_def Let_def)
  ultimately show "set (map flow_id (projected (the_ledger (snd (execute_flow w fid a t)))))
           \<subseteq> set (map flow_id (projected (the_ledger w)))"
    by (cases "recurrent m = 0") (simp_all add: ids_set_time_executed del: set_map)
  show "distinct (map flow_id (projected (the_ledger (snd (execute_flow w fid a t)))))"
    if "distinct (map flow_id (projected (the_ledger w)))"
    using assms that
    by (simp add: execute_flow_def Flow_init_def Let_def ids_set_time_executed distinct_ids_remove1)
qed

lemma execute_flow_invariant:
  assumes "unique_ids (the_ledger w)" and "ids_issued w"
  shows "unique_ids (the_ledger (snd (execute_flow w fid a t))) \<and>
         ids_issued (snd (execute_flow w fid a t))"
proof (cases "find (\<lambda>flow. flow_id flow = fid) (projected (the_ledger w))")
  case None
  with assms show ?thesis by (simp add: execute_flow_def)
next
  case (Some m)
  let ?w' = "snd (execute_flow w fid a t)"
  let ?E = "map flow_id (executed (the_ledger w))"
  let ?P = "map flow_id (projected (the_ledger w))"
  let ?P' = "map flow_id (projected (the_ledger ?w'))"
  note ids = execute_flow_ids [OF Some, of a t]
  from assms(1) have d: "distinct ?E" "distinct ?P" "set ?E \<inter> set ?P = {}"
    by (simp_all add: unique_ids_def)
  from assms(2) have bound: "\<forall>i\<in>set ?E \<union> set ?P. i \<le> id_counter w"
    by (simp add: ids_issued_def)
  have fresh: "id_counter w + 1 \<notin> set ?E \<union> set ?P"
  proof
    assume "id_counter w + 1 \<in> set ?E \<union> set ?P"
    with bound have "id_counter w + 1 \<le> id_counter w" by blast
    then show False by simp
  qed
  have "distinct ?P'" using ids(4) d(2) by blast
  moreover have "distinct (?E @ [id_counter w + 1])" using d(1) fresh by simp
  moreover have "set ?E \<inter> set ?P' = {}" using d(3) ids(3) by blast
  moreover have "id_counter w + 1 \<notin> set ?P'" using fresh ids(3) by blast
  ultimately have "set (?E @ [id_counter w + 1]) \<inter> set ?P' = {}"
    by (simp del: set_map)
  moreover have "distinct ?P'" using ids(4) d(2) by blast
  moreover have "distinct (?E @ [id_counter w + 1])" using d(1) fresh by simp
  ultimately have "unique_ids (the_ledger ?w')"
    unfolding unique_ids_def ids(2) by blast
  moreover have "\<forall>i\<in>set ?E \<union> set ?P. i \<le> id_counter w + 1"
    using bound by (rule ids_bound_mono) simp
  then have "\<forall>i\<in>set (?E @ [id_counter w + 1]) \<union> set ?P'. i \<le> id_counter w + 1"
    using ids(3) by (auto simp del: set_map)
  then have "ids_issued ?w'"
    unfolding ids_issued_def map_append set_append ids(1) ids(2) by blast
  ultimately show ?thesis by blast
qed

lemma step_invariant:
  assumes "unique_ids (the_ledger w)" and "ids_issued w" and "from_constructor w c"
  shows "unique_ids (the_ledger (step w c)) \<and> ids_issued (step w c)"
proof (cases c)
  case (Construct sz cat t rec com)
  from assms(2) have "\<forall>i\<in>set (map flow_id (executed (the_ledger w) @ projected (the_ledger w))).
      i \<le> id_counter w + 1"
    unfolding ids_issued_def by (rule ids_bound_mono) simp
  then have "ids_issued (step w c)"
    by (simp add: Construct ids_issued_def Flow_init_def Let_def)
  with assms(1) Construct show ?thesis by simp
next
  case (Add_flow f p)
  from assms(2,3) Add_flow have "ids_issued (step w c)"
    by (auto simp: ids_issued_def add_flow_def)
  with assms(1) Add_flow show ?thesis by (simp add: unique_ids_add_flow)
next
  case (Execute_flow fid a t)
  with assms show ?thesis by (simp add: execute_flow_invariant)
next
  case (Remove_projected_flow fid)
  from assms(2) Remove_projected_flow have "ids_issued (step w c)"
    by (auto simp: ids_issued_def remove_projected_flow_def)
  with assms(1) Remove_projected_flow show ?thesis by (simp add: unique_ids_remove)
qed

lemma run_invariant:
  "unique_ids (the_ledger w) \<Longrightarrow> ids_issued w \<Longrightarrow> calls_ok w cs \<Longrightarrow>
   unique_ids (the_ledger (run w cs)) \<and> ids_issued (run w cs)"
proof (induction cs arbitrary: w)
  case Nil
  then show ?case by simp
next
  case (Cons c cs)
  from Cons.prems have "unique_ids (the_ledger (step w c)) \<and> ids_issued (step w c)"
    by (simp add: step_invariant)
  with Cons.IH [of "step w c"] Cons.prems show ?case by simp
qed

text \<open>
  Claim C7. Start from the empty ledger that the constructor \<open>Ledger_init\<close> builds, with
  the id counter at any value, and run any sequence of constructor, \<open>add_flow\<close>,
  \<open>execute_flow\<close> and \<open>remove_projected_flow\<close> calls in which every flow handed to
  \<open>add_flow\<close> carries an id the constructor has issued. Then in the resulting ledger no id
  is in both partitions and none occurs twice within a partition.
\<close>

theorem uniqueness_preserved:
  assumes "Ledger_init (Some name) lid = Inr L0"
    and "calls_ok \<lparr>id_counter = c0, the_ledger = L0\<rparr> cs"
  shows "unique_ids (the_ledger (run \<lparr>id_counter = c0, the_ledger = L0\<rparr> cs))"
proof -
  from assms(1) have "executed L0 = []" "projected L0 = []"
    by (auto simp: Ledger_init_def)
  then have "unique_ids (the_ledger \<lparr>id_counter = c0, the_ledger = L0\<rparr>)"
    and "ids_issued \<lparr>id_counter = c0, the_ledger = L0\<rparr>"
    by (simp_all add: unique_ids_def ids_issued_def)
  with assms(2) show ?thesis by (simp add: run_invariant)
qed

theorem uniqueness_preserved_witness:
  "Ledger_init (Some ''main'') None = Inr fresh_ledger \<and>
   calls_ok \<lparr>id_counter = -1, the_ledger = fresh_ledger\<rparr> sample_calls \<and>
   unique_ids (the_ledger (run \<lparr>id_counter = -1, the_ledger = fresh_ledger\<rparr> sample_calls))"
proof -
  have h1: "Ledger_init (Some ''main'') None = Inr fresh_ledger"
    by (simp add: Ledger_init_def fresh_ledger_def)
  have h2: "calls_ok \<lparr>id_counter = -1, the_ledger = fresh_ledger\<rparr> sample_calls"
    by (simp add: sample_calls_def fresh_ledger_def Flow_init_def add_flow_def execute_flow_def
        remove_projected_flow_def salary_def rent_def)
  from uniqueness_preserved [OF h1 h2] h1 h2 show ?thesis by blast
qed

section \<open>Properties of the balance engine\<close>

subsection \<open>Realized balance\<close>

lemma sum_fold_filter:
  "fold (\<lambda>x total. if P x then total + g x else total) xs (a::real)
     = a + sum_list (map g (filter P xs))"
  by (induction xs arbitrary: a) auto

lemma get_balance_sum:
  "get_balance M L (Some T) =
     sum_list (map size' (filter (\<lambda>f. date (time_executed f) \<le> date T) (executed L)))"
  by (simp add: get_balance_def sum_fold_filter)

text \<open>
  Claim C1. For every ledger and every timestamp \<open>T\<close> passed to it, \<open>get_balance\<close> returns
  the sum of the amounts of exactly the executed flows whose day is on or before the day of
  \<open>T\<close> (the comparison is between the dates, the time of day plays no part). A flow dated
  strictly after the day of \<open>T\<close> does not change the balance at \<open>T\<close>, whether it is appended
  to the executed partition directly or handed to \<open>add_flow\<close>.
\<close>

theorem get_balance_exact:
  "get_balance M L (Some T) =
     sum_list (map size' (filter (\<lambda>f. date (time_executed f) \<le> date T) (executed L))) \<and>
   (date T < date (time_executed f) \<longrightarrow>
      get_balance M (L\<lparr>executed := executed L @ [f]\<rparr>) (Some T) = get_balance M L (Some T) \<and>
      get_balance M (add_flow L f is_proj) (Some T) = get_balance M L (Some T))"
proof (intro conjI impI)
  show "get_balance M L (Some T) =
     sum_list (map size' (filter (\<lambda>f. date (time_executed f) \<le> date T) (executed L)))"
    by (rule get_balance_sum)
next
  assume later: "date T < date (time_executed f)"
  then have out: "\<not> date (time_executed f) \<le> date T" by simp
  then show "get_balance M (L\<lparr>executed := executed L @ [f]\<rparr>) (Some T) = get_balance M L (Some T)"
    by (simp add: get_balance_sum)
  from out show "get_balance M (add_flow L f is_proj) (Some T) = get_balance M L (Some T)"
    by (simp add: get_balance_sum add_flow_def)
qed

theorem get_balance_exact_witness:
  "date (midnight 2024 1 1) < date (time_executed late_bonus) \<and>
   get_balance (import_balance jan10) (the_ledger sample_world) (Some (midnight 2024 1 1)) = 1000 \<and>
   get_balance (import_balance jan10) (add_flow (the_ledger sample_world) late_bonus False)
     (Some (midnight 2024 1 1)) = 1000"
proof -
  have h: "date (midnight 2024 1 1) < date (time_executed late_bonus)"
    by (simp add: date_def midnight_def late_bonus_def)
  have v: "sum_list (map size' (filter (\<lambda>f. date (time_executed f) \<le> date (midnight 2024 1 1))
             (executed (the_ledger sample_world)))) = 1000"
    by (simp add: sample_world_def salary_def date_def midnight_def)
  from get_balance_exact
      [of "import_balance jan10" "the_ledger sample_world" "midnight 2024 1 1" late_bonus False] h v
  show ?thesis by simp
qed

subsection \<open>Projected balance\<close>

lemma fold_contribution:
  "fold (\<lambda>proj_flow balance.
             if dt_le (time_executed proj_flow) timestamp then
               (if recurrent proj_flow = 0 then balance + size' proj_flow
                else (let days = days_between timestamp (time_executed proj_flow);
                          times_executed = days div recurrent proj_flow
                      in balance + size' proj_flow * of_int times_executed))
             else balance) ps b = b + sum_list (map (contribution timestamp) ps)"
  by (induction ps arbitrary: b) (simp_all add: contribution_def Let_def)

text \<open>
  The projected balance is the realized balance at the default timestamp of \<open>get_balance\<close>
  plus the contributions of the projected flows.
\<close>

lemma get_future_balance_decomposition:
  "get_future_balance M L asOf =
     get_balance M L None + sum_list (map (contribution asOf) (projected L))"
  by (simp add: get_future_balance_def fold_contribution)

text \<open>
  Claim C2. The claim takes the realized part of \<open>get_future_balance\<close> to be the realized
  balance at the moment of the call. The code calls \<^verbatim>\<open>get_balance(ledger)\<close>, whose default
  timestamp is the moment the module was imported (lemma \<open>get_future_balance_decomposition\<close>
  above, and claim C10 below). With the module imported on 1 January 2024, a ledger whose only
  flow is an executed flow of 100 dated 2 January, and a call on 3 January for 1 February, the
  code returns 0, where the realized balance on 3 January plus the contributions of the
  projected flows is 100.
\<close>

theorem get_future_balance_stale_reference:
  "get_future_balance (import_balance (midnight 2024 1 1)) overnight_ledger (midnight 2024 2 1) = 0 \<and>
   get_balance (import_balance (midnight 2024 1 1)) overnight_ledger (Some (midnight 2024 1 3))
     + sum_list (map (contribution (midnight 2024 2 1)) (projected overnight_ledger)) = 100"
  by (simp add: get_future_balance_def get_balance_def import_balance_def overnight_ledger_def
      late_bonus_def date_def midnight_def)

text \<open>
  Claim C3. Take a projected flow \<open>f\<close> with a positive period that is due on or before
  \<open>asOf\<close>, anywhere in the projected partition. The projected balance with \<open>f\<close> exceeds the
  projected balance of the same ledger without \<open>f\<close> by the amount of \<open>f\<close> times the floor of
  the elapsed whole days divided by the period. So when the elapsed days are \<open>k\<close> periods
  exactly, the flow adds \<open>k\<close> times its amount, and with zero elapsed days it adds nothing.
\<close>

theorem recurring_contribution:
  assumes "projected L = xs @ f # ys" and "0 < recurrent f" and "dt_le (time_executed f) asOf"
  shows "get_future_balance M L asOf
           = get_future_balance M (L\<lparr>projected := xs @ ys\<rparr>) asOf
             + size' f * of_int (days_between asOf (time_executed f) div recurrent f) \<and>
         (\<forall>k. days_between asOf (time_executed f) = k * recurrent f \<longrightarrow>
            get_future_balance M L asOf
              = get_future_balance M (L\<lparr>projected := xs @ ys\<rparr>) asOf + size' f * of_int k) \<and>
         (days_between asOf (time_executed f) = 0 \<longrightarrow>
            get_future_balance M L asOf = get_future_balance M (L\<lparr>projected := xs @ ys\<rparr>) asOf)"
proof -
  have same: "get_balance M (L\<lparr>projected := xs @ ys\<rparr>) None = get_balance M L None"
    by (simp add: get_balance_def)
  from assms(2,3) have c: "contribution asOf f
      = size' f * of_int (days_between asOf (time_executed f) div recurrent f)"
    by (simp add: contribution_def)
  have main: "get_future_balance M L asOf
           = get_future_balance M (L\<lparr>projected := xs @ ys\<rparr>) asOf
             + size' f * of_int (days_between asOf (time_executed f) div recurrent f)"
    by (simp add: get_future_balance_decomposition same assms(1) c)
  have "get_future_balance M L asOf
              = get_future_balance M (L\<lparr>projected := xs @ ys\<rparr>) asOf + size' f * of_int k"
    if "days_between asOf (time_executed f) = k * recurrent f" for k
    using main that assms(2) by simp
  moreover have "get_future_balance M L asOf = get_future_balance M (L\<lparr>projected := xs @ ys\<rparr>) asOf"
    if "days_between asOf (time_executed f) = 0"
    using main that by simp
  ultimately show ?thesis using main by blast
qed

theorem recurring_contribution_witness:
  "projected (overnight_ledger\<lparr>projected := [subscription]\<rparr>) = [] @ subscription # [] \<and>
   0 < recurrent subscription \<and> dt_le (time_executed subscription) (midnight 2024 1 31) \<and>
   days_between (midnight 2024 1 31) (time_executed subscription) = 1 * recurrent subscription \<and>
   get_future_balance (import_balance jan10) (overnight_ledger\<lparr>projected := [subscription]\<rparr>) (midnight 2024 1 31)
     = get_future_balance (import_balance jan10) overnight_ledger (midnight 2024 1 31) + 100"
proof -
  let ?L = "overnight_ledger\<lparr>projected := [subscription]\<rparr>"
  have h1: "projected ?L = [] @ subscription # []" by simp
  have h2: "0 < recurrent subscription" by (simp add: subscription_def)
  have h3: "dt_le (time_executed subscription) (midnight 2024 1 31)"
    by (simp add: subscription_def dt_le_def dt_tuple_def midnight_def)
  have h4: "days_between (midnight 2024 1 31) (time_executed subscription) = 1 * recurrent subscription"
    by (simp add: subscription_def days_between_def toordinal_def midnight_def)
  have e: "?L\<lparr>projected := [] @ []\<rparr> = overnight_ledger"
    by (simp add: overnight_ledger_def)
  from recurring_contribution [OF h1 h2 h3, of "import_balance jan10"] h4
  have "get_future_balance (import_balance jan10) ?L (midnight 2024 1 31)
     = get_future_balance (import_balance jan10) (?L\<lparr>projected := [] @ []\<rparr>) (midnight 2024 1 31)
       + size' subscription * of_int 1"
    by blast
  then have "get_future_balance (import_balance jan10) ?L (midnight 2024 1 31)
     = get_future_balance (import_balance jan10) overnight_ledger (midnight 2024 1 31) + 100"
    by (simp only: e) (simp add: subscription_def)
  with h1 h2 h3 h4 show ?thesis by blast
qed

subsection \<open>The default timestamp\<close>

text \<open>
  Claim C10. Let the balance module be imported when the clock shows \<open>t0\<close>. Then every call
  of \<open>get_balance\<close> without a timestamp, for every ledger, is the call with the timestamp
  \<open>t0\<close>: it sums the executed flows dated on or before the day of \<open>t0\<close>. The same holds for
  the call inside \<open>get_future_balance\<close>, whose result is that sum plus the contributions of the
  projected flows. No clock is read at the time of either call (none is a parameter of the two
  functions), so the results do not depend on it.
\<close>

theorem default_timestamp_fixed:
  "get_balance (import_balance t0) L None
     = sum_list (map size' (filter (\<lambda>f. date (time_executed f) \<le> date t0) (executed L))) \<and>
   get_balance (import_balance t0) L None = get_balance (import_balance t0) L (Some t0) \<and>
   get_future_balance (import_balance t0) L asOf
     = sum_list (map size' (filter (\<lambda>f. date (time_executed f) \<le> date t0) (executed L)))
       + sum_list (map (contribution asOf) (projected L))"
  by (simp add: get_future_balance_decomposition)
     (simp add: get_balance_def import_balance_def sum_fold_filter)

theorem default_timestamp_fixed_witness:
  "get_balance (import_balance (midnight 2024 1 1)) overnight_ledger None = 0 \<and>
   get_future_balance (import_balance (midnight 2024 1 1)) overnight_ledger (midnight 2024 2 1) = 0"
proof -
  have "sum_list (map size' (filter (\<lambda>f. date (time_executed f) \<le> date (midnight 2024 1 1))
          (executed overnight_ledger))) = 0"
    by (simp add: overnight_ledger_def late_bonus_def date_def midnight_def)
  moreover have "sum_list (map (contribution (midnight 2024 2 1)) (projected overnight_ledger)) = 0"
    by (simp add: overnight_ledger_def)
  ultimately show ?thesis
    using default_timestamp_fixed [of "midnight 2024 1 1" overnight_ledger "midnight 2024 2 1"]
    by simp
qed

section \<open>Properties of the monthly series\<close>

lemma plus_days_4:
  "plus_days t 4 = (case tomorrow t of Inl e \<Rightarrow> Inl e | Inr t1 \<Rightarrow>
        (case tomorrow t1 of Inl e \<Rightarrow> Inl e | Inr t2 \<Rightarrow>
        (case tomorrow t2 of Inl e \<Rightarrow> Inl e | Inr t3 \<Rightarrow> tomorrow t3)))"
  by (simp add: numeral_eq_Suc split: sum.splits)

lemma minus_days_1: "minus_days t 1 = yesterday t"
  by (simp split: sum.splits)

lemmas calendar_eval = end_of_month_def monthrange_def dt_check_def valid_datetime_def
  days_in_month_def is_leap_def next_month_start_def prev_month_end_def tomorrow_def yesterday_def
  plus_days_4 minus_days_1 dt_le_def dt_less_def dt_tuple_def date_def midnight_def
  month_key_def format_02d_def digit_char_def

lemma digit_char_inj: "a < 10 \<Longrightarrow> b < 10 \<Longrightarrow> digit_char a = digit_char b \<Longrightarrow> a = b"
proof -
  assume a: "a < 10" and b: "b < 10" and eq: "digit_char a = digit_char b"
  have d: "distinct ''0123456789''" by simp
  have l: "length ''0123456789'' = 10" by simp
  from eq have "''0123456789'' ! a = ''0123456789'' ! b" by (simp only: digit_char_def)
  with d a b l show "a = b" by (simp only: nth_eq_iff_index_eq)
qed

lemma show_nat_nonempty: "show_nat n \<noteq> []"
  by (subst show_nat.simps) simp

lemma show_nat_inj: "show_nat a = show_nat b \<Longrightarrow> a = b"
proof (induction a arbitrary: b rule: show_nat.induct)
  case (1 n)
  show ?case
  proof (cases "n < 10")
    case small: True
    show ?thesis
    proof (cases "b < 10")
      case True
      from "1.prems" small True have "[digit_char n] = [digit_char b]"
        by (subst (asm) show_nat.simps, subst (asm) (2) show_nat.simps) simp
      with small True show ?thesis by (simp add: digit_char_inj del: show_nat.simps)
    next
      case False
      from "1.prems" small False have "[digit_char n] = show_nat (b div 10) @ [digit_char (b mod 10)]"
        by (subst (asm) show_nat.simps, subst (asm) (2) show_nat.simps) simp
      then have "show_nat (b div 10) = []" by (simp del: show_nat.simps)
      with show_nat_nonempty show ?thesis by blast
    qed
  next
    case big: False
    show ?thesis
    proof (cases "b < 10")
      case True
      from "1.prems" big True have "show_nat (n div 10) @ [digit_char (n mod 10)] = [digit_char b]"
        by (subst (asm) show_nat.simps, subst (asm) (2) show_nat.simps) simp
      then have "show_nat (n div 10) = []" by (simp del: show_nat.simps)
      with show_nat_nonempty show ?thesis by blast
    next
      case False
      from "1.prems" big False
      have "show_nat (n div 10) @ [digit_char (n mod 10)] = show_nat (b div 10) @ [digit_char (b mod 10)]"
        by (subst (asm) show_nat.simps, subst (asm) (2) show_nat.simps) simp
      then have p: "show_nat (n div 10) = show_nat (b div 10)"
        and q: "digit_char (n mod 10) = digit_char (b mod 10)"
        by (simp_all del: show_nat.simps)
      from "1.IH" [OF big p] have "n div 10 = b div 10" .
      moreover from q have "n mod 10 = b mod 10" by (intro digit_char_inj) simp_all
      ultimately show ?thesis by (metis div_mult_mod_eq)
    qed
  qed
qed

lemma format_02d_length: "1 \<le> m \<Longrightarrow> m \<le> 12 \<Longrightarrow> length (format_02d m) = 2"
proof -
  assume "1 \<le> m" "m \<le> 12"
  then consider "m < 10" | "m = 10" | "m = 11" | "m = 12" by linarith
  then show ?thesis
    by cases (simp_all add: format_02d_def)
qed

lemma format_02d_inj:
  assumes "1 \<le> a" "a \<le> 12" "1 \<le> b" "b \<le> 12" "format_02d a = format_02d b"
  shows "a = b"
proof (cases "a < 10")
  case a: True
  show ?thesis
  proof (cases "b < 10")
    case True
    with a assms(5) have "show_nat a = show_nat b" by (simp add: format_02d_def del: show_nat.simps)
    then show ?thesis by (rule show_nat_inj)
  next
    case False
    with assms(4) consider "b = 10" | "b = 11" | "b = 12" by linarith
    then show ?thesis using a assms(5) by cases (simp_all add: format_02d_def digit_char_def)
  qed
next
  case a: False
  show ?thesis
  proof (cases "b < 10")
    case True
    from a assms(2) consider "a = 10" | "a = 11" | "a = 12" by linarith
    then show ?thesis using True assms(5) by cases (simp_all add: format_02d_def digit_char_def)
  next
    case False
    with a assms(5) have "show_nat a = show_nat b" by (simp add: format_02d_def del: show_nat.simps)
    then show ?thesis by (rule show_nat_inj)
  qed
qed

lemma month_key_inj:
  assumes "1 \<le> month a" "month a \<le> 12" "1 \<le> month b" "month b \<le> 12"
    and "month_key a = month_key b"
  shows "year a = year b \<and> month a = month b"
proof -
  from assms(5) have "show_nat (year a) @ (''-'' @ format_02d (month a))
      = show_nat (year b) @ (''-'' @ format_02d (month b))"
    by (simp only: month_key_def)
  moreover have "length (''-'' @ format_02d (month a)) = length (''-'' @ format_02d (month b))"
    using assms(1-4) by (simp add: format_02d_length)
  ultimately have "show_nat (year a) = show_nat (year b) \<and>
      ''-'' @ format_02d (month a) = ''-'' @ format_02d (month b)"
    by (metis append_eq_append_conv)
  then have "year a = year b" and "format_02d (month a) = format_02d (month b)"
    by (simp_all add: show_nat_inj del: show_nat.simps)
  with assms(1-4) show ?thesis by (simp add: format_02d_inj)
qed

lemma month_key_other:
  assumes "1 \<le> month a" "month a \<le> 12" "1 \<le> month b" "month b \<le> 12"
    and "year a * 12 + month a \<noteq> year b * 12 + month b"
  shows "month_key a \<noteq> month_key b"
  using month_key_inj [OF assms(1-4)] assms(5) by auto

lemma end_of_month_valid:
  "valid_datetime cur \<Longrightarrow>
   end_of_month cur = Inr (cur\<lparr>day := days_in_month (year cur) (month cur), hour := 23, minute := 59, second := 59\<rparr>)"
  using days_in_month_range [of "month cur" "year cur"]
  by (simp add: end_of_month_def monthrange_def dt_check_def valid_datetime_def)

lemma start_of_month_valid:
  "valid_datetime cur \<Longrightarrow>
   dt_check (cur\<lparr>day := 1, hour := 0, minute := 0, second := 0\<rparr>)
     = Inr (cur\<lparr>day := 1, hour := 0, minute := 0, second := 0\<rparr>)"
  using days_in_month_range [of "month cur" "year cur"]
  by (simp add: dt_check_def valid_datetime_def)

lemma prev_month_end_valid:
  assumes "valid_datetime cur" and "1 < year cur"
  shows "\<exists>prv. prev_month_end cur = Inr prv \<and> valid_datetime prv \<and>
           year prv * 12 + month prv + 1 = year cur * 12 + month cur"
proof -
  from assms(1) have v: "valid_datetime (cur\<lparr>day := 1\<rparr>)"
    using days_in_month_range [of "month cur" "year cur"] by (simp add: valid_datetime_def)
  show ?thesis
  proof (cases "1 < month cur")
    case True
    from assms(1) have "month cur \<le> 12" by (simp add: valid_datetime_def)
    with True have r: "1 \<le> month cur - 1" "month cur - 1 \<le> 12"
      by simp_all
    from days_in_month_range [OF r, of "year cur"]
    have "1 \<le> days_in_month (year cur) (month cur - 1)" by simp
    with assms(1) r
    have "valid_datetime (cur\<lparr>month := month cur - 1, day := days_in_month (year cur) (month cur - 1)\<rparr>)"
      by (simp add: valid_datetime_def)
    with True v show ?thesis by (simp add: prev_month_end_eq)
  next
    case False
    with assms(1) have m1: "month cur = 1" by (simp add: valid_datetime_def)
    from assms have "valid_datetime (cur\<lparr>year := year cur - 1, month := 12, day := 31\<rparr>)"
      by (auto simp: valid_datetime_def days_in_month_def)
    with m1 assms(2) v show ?thesis by (simp add: prev_month_end_eq algebra_simps)
  qed
qed

lemma next_month_start_valid:
  assumes "valid_datetime cur" and "year cur < 9999"
  shows "\<exists>nxt. next_month_start cur = Inr nxt \<and> valid_datetime nxt \<and>
           year nxt * 12 + month nxt = year cur * 12 + month cur + 1"
proof -
  from assms(1) have v: "valid_datetime (cur\<lparr>day := 28\<rparr>)"
    using days_in_month_range [of "month cur" "year cur"] by (simp add: valid_datetime_def)
  show ?thesis
  proof (cases "month cur < 12")
    case True
    with assms(1) have "valid_datetime (cur\<lparr>month := month cur + 1, day := 1\<rparr>)"
      using days_in_month_range [of "month cur + 1" "year cur"] by (simp add: valid_datetime_def)
    with True v show ?thesis by (simp add: next_month_start_eq)
  next
    case False
    with assms(1) have m12: "month cur = 12" by (simp add: valid_datetime_def)
    from assms have "valid_datetime (cur\<lparr>year := year cur + 1, month := 1, day := 1\<rparr>)"
      by (simp add: valid_datetime_def days_in_month_def)
    with m12 assms(2) v show ?thesis by (simp add: next_month_start_eq)
  qed
qed

lemma map_of_update_other:
  "k \<noteq> k' \<Longrightarrow> map_of (AList.update k' v' acc) k = map_of acc k"
  by (simp add: update_conv')

text \<open>An entry of an earlier month survives the rest of the forward walk, which returns.\<close>

lemma future_loop_keeps:
  "valid_datetime cur \<Longrightarrow> year end_timestamp < 9999 \<Longrightarrow> 1 \<le> month k0 \<Longrightarrow> month k0 \<le> 12 \<Longrightarrow>
   year k0 * 12 + month k0 < year cur * 12 + month cur \<Longrightarrow>
   map_of acc (month_key k0) = Some v \<Longrightarrow>
   \<exists>mb. future_loop M L end_timestamp cur acc = Inr mb \<and> map_of mb (month_key k0) = Some v"
proof (induction M L end_timestamp cur acc rule: future_loop.induct)
  case (1 M L end_timestamp current_date monthly_balances)
  show ?case
  proof (cases "dt_le current_date end_timestamp")
    case False
    then have "future_loop M L end_timestamp current_date monthly_balances = Inr monthly_balances"
      by (subst future_loop.simps) simp
    with "1.prems"(6) show ?thesis by simp
  next
    case True
    let ?eom = "current_date\<lparr>day := days_in_month (year current_date) (month current_date),
                  hour := 23, minute := 59, second := 59\<rparr>"
    let ?acc = "AList.update (month_key current_date)
                  (round2 (get_future_balance M L
                     (if dt_less end_timestamp ?eom then end_timestamp else ?eom)))
                  monthly_balances"
    have eom: "end_of_month current_date = Inr ?eom"
      using "1.prems"(1) by (rule end_of_month_valid)
    from True have "year current_date \<le> year end_timestamp"
      by (auto simp: dt_le_def dt_tuple_def)
    with "1.prems"(2) have "year current_date < 9999" by simp
    from next_month_start_valid [OF "1.prems"(1) this]
    obtain nxt where nxt: "next_month_start current_date = Inr nxt" and vn: "valid_datetime nxt"
      and step: "year nxt * 12 + month nxt = year current_date * 12 + month current_date + 1"
      by blast
    from "1.prems"(1) have mc: "1 \<le> month current_date" "month current_date \<le> 12"
      by (simp_all add: valid_datetime_def)
    have "month_key k0 \<noteq> month_key current_date"
      using month_key_other [OF "1.prems"(3,4) mc] "1.prems"(5) by simp
    then have kept: "map_of ?acc (month_key k0) = Some v"
      using "1.prems"(6) by (simp add: map_of_update_other)
    from step "1.prems"(5) have later: "year k0 * 12 + month k0 < year nxt * 12 + month nxt"
      by simp
    from "1.IH" [OF True eom nxt vn "1.prems"(2,3,4) later kept]
    obtain mb where "future_loop M L end_timestamp nxt ?acc = Inr mb"
      and "map_of mb (month_key k0) = Some v"
      by blast
    moreover have "future_loop M L end_timestamp current_date monthly_balances
        = future_loop M L end_timestamp nxt ?acc"
      by (subst future_loop.simps) (simp only: True eom nxt if_True sum.case)
    ultimately show ?thesis by simp
  qed
qed

text \<open>An entry of a later month survives the rest of the backward walk, which returns.\<close>

lemma past_loop_keeps:
  "valid_datetime cur \<Longrightarrow> 1 < year end_timestamp \<Longrightarrow> 1 \<le> month k0 \<Longrightarrow> month k0 \<le> 12 \<Longrightarrow>
   year cur * 12 + month cur < year k0 * 12 + month k0 \<Longrightarrow>
   map_of acc (month_key k0) = Some v \<Longrightarrow>
   \<exists>mb. past_loop M L end_timestamp cur acc = Inr mb \<and> map_of mb (month_key k0) = Some v"
proof (induction M L end_timestamp cur acc rule: past_loop.induct)
  case (1 M L end_timestamp current_date monthly_balances)
  show ?case
  proof (cases "dt_le end_timestamp current_date")
    case False
    then have "past_loop M L end_timestamp current_date monthly_balances = Inr monthly_balances"
      by (subst past_loop.simps) simp
    with "1.prems"(6) show ?thesis by simp
  next
    case True
    let ?eom = "current_date\<lparr>day := days_in_month (year current_date) (month current_date),
                  hour := 23, minute := 59, second := 59\<rparr>"
    let ?som = "current_date\<lparr>day := 1, hour := 0, minute := 0, second := 0\<rparr>"
    let ?acc = "AList.update (month_key current_date) (get_balance M L (Some ?eom)) monthly_balances"
    have eom: "end_of_month current_date = Inr ?eom"
      using "1.prems"(1) by (rule end_of_month_valid)
    have som: "dt_check ?som = Inr ?som"
      using "1.prems"(1) by (rule start_of_month_valid)
    from True have "year end_timestamp \<le> year current_date"
      by (auto simp: dt_le_def dt_tuple_def)
    with "1.prems"(2) have "1 < year current_date" by simp
    from prev_month_end_valid [OF "1.prems"(1) this]
    obtain prv where prv: "prev_month_end current_date = Inr prv" and vp: "valid_datetime prv"
      and step: "year prv * 12 + month prv + 1 = year current_date * 12 + month current_date"
      by blast
    from "1.prems"(1) have mc: "1 \<le> month current_date" "month current_date \<le> 12"
      by (simp_all add: valid_datetime_def)
    have "month_key k0 \<noteq> month_key current_date"
      using month_key_other [OF "1.prems"(3,4) mc] "1.prems"(5) by simp
    then have kept: "map_of ?acc (month_key k0) = Some v"
      using "1.prems"(6) by (simp add: map_of_update_other)
    from step "1.prems"(5) have earlier: "year prv * 12 + month prv < year k0 * 12 + month k0"
      by simp
    from "1.IH" [OF True eom som prv vp "1.prems"(2,3,4) earlier kept]
    obtain mb where "past_loop M L end_timestamp prv ?acc = Inr mb"
      and "map_of mb (month_key k0) = Some v"
      by blast
    moreover have "past_loop M L end_timestamp current_date monthly_balances
        = past_loop M L end_timestamp prv ?acc"
      by (subst past_loop.simps) (simp only: True eom som prv if_True sum.case)
    ultimately show ?thesis by simp
  qed
qed

lemma get_balance_same_dates:
  assumes "\<forall>f\<in>set (executed L). (date (time_executed f) \<le> date a) = (date (time_executed f) \<le> date b)"
  shows "get_balance M L (Some a) = get_balance M L (Some b)"
proof -
  have "fold (\<lambda>flow total. if date (time_executed flow) \<le> date a then total + size' flow else total) xs z
      = fold (\<lambda>flow total. if date (time_executed flow) \<le> date b then total + size' flow else total) xs z"
    if "\<forall>f\<in>set xs. (date (time_executed f) \<le> date a) = (date (time_executed f) \<le> date b)"
    for xs and z :: real
    using that by (induction xs arbitrary: z) simp_all
  from this [OF assms] show ?thesis by (simp add: get_balance_def)
qed

text \<open>
  Claim C9, as amended. Let \<open>now\<close> be a valid timestamp and \<open>month_end\<close> the last day of
  its month at 23:59:59. If \<open>end_timestamp\<close> is not after \<open>now\<close> and lies after the year 1,
  the backward walk returns a mapping whose entry for the month of \<open>now\<close> is the realized
  balance at \<open>month_end\<close>. If \<open>end_timestamp\<close> is not before \<open>now\<close> and lies before the year
  9999, the forward walk returns a mapping whose entry for the month of \<open>now\<close> is the
  projected balance at \<open>month_end\<close>, or at \<open>end_timestamp\<close> when that comes first, rounded to
  two decimals. The realized balance at \<open>month_end\<close> is the realized balance at \<open>now\<close> when
  no executed flow is dated after the day of \<open>now\<close> and on or before the day of \<open>month_end\<close>.
\<close>

theorem current_month_entries:
  assumes "valid_datetime now"
    and "month_end = now\<lparr>day := days_in_month (year now) (month now),
                          hour := 23, minute := 59, second := 59\<rparr>"
  shows "(dt_le end_timestamp now \<and> 1 < year end_timestamp \<longrightarrow>
            (\<exists>past. get_past_monthly_balances M now L end_timestamp = Inr past \<and>
               map_of past (month_key now) = Some (get_balance M L (Some month_end)))) \<and>
         (dt_le now end_timestamp \<and> year end_timestamp < 9999 \<longrightarrow>
            (\<exists>future. get_future_monthly_balances M now L end_timestamp = Inr future \<and>
               map_of future (month_key now) =
                 Some (round2 (get_future_balance M L
                    (if dt_less end_timestamp month_end then end_timestamp else month_end))))) \<and>
         ((\<forall>f\<in>set (executed L).
              date (time_executed f) \<le> date now \<or> date month_end < date (time_executed f)) \<longrightarrow>
            get_balance M L (Some month_end) = get_balance M L (Some now))"
proof (intro conjI impI)
  from assms(1) have mn: "1 \<le> month now" "month now \<le> 12"
    by (simp_all add: valid_datetime_def)
  have eom: "end_of_month now = Inr month_end"
    using end_of_month_valid [OF assms(1)] assms(2) by simp
  {
    assume a: "dt_le end_timestamp now \<and> 1 < year end_timestamp"
    let ?som = "now\<lparr>day := 1, hour := 0, minute := 0, second := 0\<rparr>"
    let ?acc = "AList.update (month_key now) (get_balance M L (Some month_end)) []"
    have som: "dt_check ?som = Inr ?som" using assms(1) by (rule start_of_month_valid)
    from a have "year end_timestamp \<le> year now" by (auto simp: dt_le_def dt_tuple_def)
    with a have "1 < year now" by simp
    from prev_month_end_valid [OF assms(1) this]
    obtain prv where prv: "prev_month_end now = Inr prv" and vp: "valid_datetime prv"
      and step: "year prv * 12 + month prv + 1 = year now * 12 + month now"
      by blast
    have first: "past_loop M L end_timestamp now [] = past_loop M L end_timestamp prv ?acc"
      using a by (subst past_loop.simps) (simp only: eom som prv if_True sum.case)
    have "map_of ?acc (month_key now) = Some (get_balance M L (Some month_end))" by simp
    moreover from step have "year prv * 12 + month prv < year now * 12 + month now" by simp
    ultimately obtain mb where "past_loop M L end_timestamp prv ?acc = Inr mb"
      and "map_of mb (month_key now) = Some (get_balance M L (Some month_end))"
      using past_loop_keeps [OF vp _ mn, of end_timestamp ?acc _ M L] a by blast
    with first show "\<exists>past. get_past_monthly_balances M now L end_timestamp = Inr past \<and>
               map_of past (month_key now) = Some (get_balance M L (Some month_end))"
      by (simp add: get_past_monthly_balances_def)
  }
  {
    assume a: "dt_le now end_timestamp \<and> year end_timestamp < 9999"
    let ?v = "round2 (get_future_balance M L
                    (if dt_less end_timestamp month_end then end_timestamp else month_end))"
    let ?acc = "AList.update (month_key now) ?v []"
    from a have "year now \<le> year end_timestamp" by (auto simp: dt_le_def dt_tuple_def)
    with a have "year now < 9999" by simp
    from next_month_start_valid [OF assms(1) this]
    obtain nxt where nxt: "next_month_start now = Inr nxt" and vn: "valid_datetime nxt"
      and step: "year nxt * 12 + month nxt = year now * 12 + month now + 1"
      by blast
    have first: "future_loop M L end_timestamp now [] = future_loop M L end_timestamp nxt ?acc"
      using a by (subst future_loop.simps) (simp only: eom nxt if_True sum.case)
    have "map_of ?acc (month_key now) = Some ?v" by simp
    moreover from step have "year now * 12 + month now < year nxt * 12 + month nxt" by simp
    ultimately obtain mb where "future_loop M L end_timestamp nxt ?acc = Inr mb"
      and "map_of mb (month_key now) = Some ?v"
      using future_loop_keeps [OF vn _ mn, of end_timestamp ?acc _ M L] a by blast
    with first show "\<exists>future. get_future_monthly_balances M now L end_timestamp = Inr future \<and>
               map_of future (month_key now) = Some ?v"
      by (simp add: get_future_monthly_balances_def)
  }
  {
    assume none: "\<forall>f\<in>set (executed L).
              date (time_executed f) \<le> date now \<or> date month_end < date (time_executed f)"
    from assms have "date now \<le> date month_end"
      by (simp add: date_def valid_datetime_def)
    with none have "\<forall>f\<in>set (executed L).
        (date (time_executed f) \<le> date month_end) = (date (time_executed f) \<le> date now)"
      by (meson leD order_trans)
    then show "get_balance M L (Some month_end) = get_balance M L (Some now)"
      by (rule get_balance_same_dates)
  }
qed

theorem current_month_entries_witness:
  "valid_datetime jan10 \<and> dt_le (midnight 2024 1 5) jan10 \<and> 1 < year (midnight 2024 1 5) \<and>
   dt_le jan10 (midnight 2024 2 15) \<and> year (midnight 2024 2 15) < 9999 \<and>
   (\<exists>past. get_past_monthly_balances (import_balance jan10) jan10 seam_ledger (midnight 2024 1 5) = Inr past \<and>
      map_of past (month_key jan10) = Some 100) \<and>
   (\<exists>future. get_future_monthly_balances (import_balance jan10) jan10 seam_ledger (midnight 2024 2 15) = Inr future \<and>
      map_of future (month_key jan10) = Some 50)"
proof -
  let ?eom = "jan10\<lparr>day := days_in_month (year jan10) (month jan10), hour := 23, minute := 59, second := 59\<rparr>"
  have h1: "valid_datetime jan10"
    by (simp add: jan10_def valid_datetime_def days_in_month_def)
  have h2: "dt_le (midnight 2024 1 5) jan10 \<and> 1 < year (midnight 2024 1 5)"
    by (simp add: jan10_def midnight_def dt_le_def dt_tuple_def)
  have h3: "dt_le jan10 (midnight 2024 2 15) \<and> year (midnight 2024 2 15) < 9999"
    by (simp add: jan10_def midnight_def dt_le_def dt_tuple_def)
  have v1: "get_balance (import_balance jan10) seam_ledger (Some ?eom) = 100"
    by (simp add: get_balance_def seam_ledger_def jan20_income_def jan10_def midnight_def date_def
        days_in_month_def)
  have v2: "round2 (get_future_balance (import_balance jan10) seam_ledger
              (if dt_less (midnight 2024 2 15) ?eom then midnight 2024 2 15 else ?eom)) = 50"
    by (simp add: get_future_balance_def get_balance_def import_balance_def seam_ledger_def
        jan20_income_def jan15_bill_def jan10_def midnight_def date_def days_in_month_def
        dt_less_def dt_le_def dt_tuple_def round2_def)
  from current_month_entries [OF h1 refl, of "midnight 2024 1 5" "import_balance jan10" seam_ledger]
    h2 v1
  have p: "\<exists>past. get_past_monthly_balances (import_balance jan10) jan10 seam_ledger (midnight 2024 1 5) = Inr past \<and>
      map_of past (month_key jan10) = Some 100"
    by simp
  from current_month_entries [OF h1 refl, of "midnight 2024 2 15" "import_balance jan10" seam_ledger]
    h3 v2
  have f: "\<exists>future. get_future_monthly_balances (import_balance jan10) jan10 seam_ledger (midnight 2024 2 15) = Inr future \<and>
      map_of future (month_key jan10) = Some 50"
    by simp
  from h1 h2 h3 p f show ?thesis by blast
qed

text \<open>
  Claim C9 as stated fails: on 10 January 2024 (the module imported at the same moment), with
  an executed flow of 100 dated 20 January and a projected one-off flow of 50 due 15 January,
  the realized balance now is 0, the backward series has 100 for January and the forward
  series has 50.
\<close>

theorem seam_not_realized_balance:
  "month_key jan10 = ''2024-01'' \<and>
   get_balance (import_balance jan10) seam_ledger (Some jan10) = 0 \<and>
   get_past_monthly_balances (import_balance jan10) jan10 seam_ledger (midnight 2024 1 5)
     = Inr [(''2024-01'', 100)] \<and>
   get_future_monthly_balances (import_balance jan10) jan10 seam_ledger (midnight 2024 2 15)
     = Inr [(''2024-01'', 50), (''2024-02'', 50)]"
proof (intro conjI)
  show "month_key jan10 = ''2024-01''"
    by (simp add: jan10_def calendar_eval)
  show "get_balance (import_balance jan10) seam_ledger (Some jan10) = 0"
    by (simp add: get_balance_def seam_ledger_def jan20_income_def jan10_def midnight_def date_def)
  show "get_past_monthly_balances (import_balance jan10) jan10 seam_ledger (midnight 2024 1 5)
     = Inr [(''2024-01'', 100)]"
    by (simp add: get_past_monthly_balances_def past_loop.simps calendar_eval jan10_def
        seam_ledger_def jan20_income_def get_balance_def)
  show "get_future_monthly_balances (import_balance jan10) jan10 seam_ledger (midnight 2024 2 15)
     = Inr [(''2024-01'', 50), (''2024-02'', 50)]"
    by (simp add: get_future_monthly_balances_def future_loop.simps calendar_eval jan10_def
        seam_ledger_def jan20_income_def jan15_bill_def get_balance_def get_future_balance_def
        import_balance_def round2_def)
qed

section \<open>Properties of persistence\<close>

text \<open>
  Claim C8. The claim is that a failed read makes \<open>load_ledger\<close> return an empty ledger and
  raise nothing. In the code the handler calls the constructor without the account name it
  requires, so whenever reading fails the function raises \<^verbatim>\<open>TypeError\<close>.
\<close>

theorem load_ledger_failure_raises:
  "read_pickle load_path = Inl e \<Longrightarrow> load_ledger read_pickle load_path = Inl TypeError"
  by (simp add: load_ledger_def Ledger_init_def)

theorem load_ledger_failure_raises_witness:
  "failing_read ''ledger.pkl'' = Inl OSError \<and> load_ledger failing_read ''ledger.pkl'' = Inl TypeError"
proof -
  have h: "failing_read ''ledger.pkl'' = Inl OSError" by (simp add: failing_read_def)
  from load_ledger_failure_raises [of failing_read "''ledger.pkl''" OSError] h
  show ?thesis by simp
qed

end
